theory Spec2Isabelle
  imports Main
begin

section \<open>The repeating poller \<open>pollEvery\<close>\<close>

text \<open>
  The source is one TypeScript function, \<open>pollEvery(fn, delay)\<close>. It declares two
  variables, \<open>timer\<close> and \<open>stop\<close>, and three closures over them: the asynchronous
  \<open>poll\<close>, the start function it returns, and the stop function that start returns.

  JavaScript runs each callback to completion, so the program is a transition system
  whose atomic steps are: a call of start, a call of a stop closure, the settling of a
  request promise (which resumes \<open>poll\<close> after its \<open>await\<close>), the firing of a
  timer (which calls \<open>poll\<close>), and the passing of time. The state holds the two
  variables of the closure and the part of the host that the code talks to: the
  pending timers, the requests in flight and the clock. A trace of observations records
  every call the poller makes to code it does not own.

  A session is one call of start: the pair \<open>{request, onResult}\<close> that \<open>fn\<close>
  returned for it. Sessions are numbered in the order of the calls. What the two callbacks
  do is not the poller's code, so their outcomes are inputs of the steps: how the request
  promise settles, and what the consumer does if it is called. The consumer runs inside
  \<open>poll\<close>, between the test of the flag and the call of \<open>setTimeout\<close>, and it can
  call back into the poller: \<open>Fulfils r cs c\<close> is a request fulfilled with \<open>r\<close>
  whose consumer makes the calls \<open>cs\<close> of start and of stop closures, in this
  order, and then returns or throws (\<open>c\<close>).

  \<open>request\<close> is taken at its type, a function that returns a promise; inside the
  asynchronous \<open>poll\<close> a request that throws at once rejects the promise of \<open>poll\<close>
  just as a rejected request does. Calls of start or stop made by \<open>request\<close> or by
  \<open>fn\<close> need no case of their own: \<open>request()\<close> is the last thing \<open>poll\<close> does
  before it suspends and \<open>fn\<close> the first thing start does, so such a call has the effect
  of the same event right after, or right before, the step. The delay is a natural number
  of time units.
\<close>

type_synonym sid = nat
type_synonym handle = nat

datatype cb_result = Returns | Throws

datatype cb_call = CallStart | CallStop sid

datatype 'r outcome =
    Rejects
  | Fulfils 'r "cb_call list" cb_result

datatype 'r obs =
    Requested sid
  | Delivered sid 'r
  | Scheduled sid handle
  | Unhandled sid

datatype 'r event =
    Start
  | Stop sid
  | Settle sid "'r outcome"
  | Fire handle
  | Advance nat

record 'r pstate =
  delay :: nat
  timer :: "handle option"
  stop :: bool
  now :: nat
  timers :: "(handle \<times> nat \<times> sid) list"
  handles :: nat
  inflight :: "sid list"
  started :: nat
  trace :: "'r obs list"

text \<open>
  \<open>delay\<close>, \<open>timer\<close> and \<open>stop\<close> are the argument and the two variables of
  \<open>pollEvery\<close> (\<open>timer\<close> is \<open>undefined\<close> until the first assignment: \<open>None\<close>).
  \<open>timers\<close> are the host's pending timeouts, each with its handle, the time it is due
  and the session whose \<open>poll\<close> it is bound to; \<open>handles\<close> is the next fresh handle.
  \<open>inflight\<close> lists the sessions whose \<open>poll\<close> is suspended at \<open>await request()\<close>;
  it is a list, so nothing in the type keeps a session from being there twice.
\<close>

definition pollEvery :: "nat \<Rightarrow> 'r pstate" where
  "pollEvery d =
     \<lparr>delay = d, timer = None, stop = False, now = 0, timers = [], handles = 0,
      inflight = [], started = 0, trace = []\<rparr>"

definition emit :: "'r obs \<Rightarrow> 'r pstate \<Rightarrow> 'r pstate" where
  "emit ob s = s\<lparr>trace := trace s @ [ob]\<rparr>"

text \<open>The host's \<open>setTimeout\<close> and \<open>clearTimeout\<close>. Clearing \<open>undefined\<close>, or a handle
  that has fired or was cleared, does nothing.\<close>

definition setTimeout :: "sid \<Rightarrow> nat \<Rightarrow> 'r pstate \<Rightarrow> handle \<times> 'r pstate" where
  "setTimeout i d s =
     (handles s,
      s\<lparr>timers := timers s @ [(handles s, now s + d, i)], handles := Suc (handles s)\<rparr>)"

definition clearTimeout :: "handle option \<Rightarrow> 'r pstate \<Rightarrow> 'r pstate" where
  "clearTimeout t s =
     (case t of
        None \<Rightarrow> s
      | Some h \<Rightarrow> s\<lparr>timers := filter (\<lambda>e. fst e \<noteq> h) (timers s)\<rparr>)"

text \<open>\<open>poll\<close> up to its \<open>await\<close>: the request is issued and the call suspends.\<close>

definition poll :: "sid \<Rightarrow> 'r pstate \<Rightarrow> 'r pstate" where
  "poll i s = emit (Requested i) (s\<lparr>inflight := inflight s @ [i]\<rparr>)"

text \<open>The function \<open>pollEvery\<close> returns (start), and the one start returns (stop).\<close>

definition start :: "'r pstate \<Rightarrow> 'r pstate" where
  "start s = poll (started s) (s\<lparr>stop := False, started := Suc (started s)\<rparr>)"

definition stop_fn :: "'r pstate \<Rightarrow> 'r pstate" where
  "stop_fn s = clearTimeout (timer s) (s\<lparr>stop := True\<rparr>)"

text \<open>The calls a running consumer makes into the poller, one after the other. A stop
  closure can be called only if its session was started; otherwise the outcome cannot
  happen (\<open>None\<close>).\<close>

fun consumer_calls :: "cb_call list \<Rightarrow> 'r pstate \<Rightarrow> 'r pstate option" where
  "consumer_calls [] s = Some s"
| "consumer_calls (CallStart # cs) s = consumer_calls cs (start s)"
| "consumer_calls (CallStop j # cs) s =
     (if j < started s then consumer_calls cs (stop_fn s) else None)"

text \<open>\<open>poll\<close> once the call of the consumer is over: a consumer that threw rejects the
  promise of \<open>poll\<close>, which nobody holds (an unhandled rejection); after a consumer that
  returned, line 22 sets the timer and stores its handle, whatever the flag is by then.\<close>

definition after_consumer :: "sid \<Rightarrow> cb_result \<Rightarrow> 'r pstate \<Rightarrow> 'r pstate" where
  "after_consumer i c s =
     (case c of
        Throws \<Rightarrow> emit (Unhandled i) s
      | Returns \<Rightarrow>
          (let (h, s2) = setTimeout i (delay s) s
           in emit (Scheduled i h) (s2\<lparr>timer := Some h\<rparr>)))"

text \<open>\<open>poll\<close> after its \<open>await\<close>. A rejected request leaves \<open>poll\<close> at once, through an
  unhandled rejection. A fulfilled one is tested against the flag; if the flag is clear
  the consumer is called, makes its calls, and \<open>poll\<close> goes on as above.\<close>

definition poll_resume :: "sid \<Rightarrow> 'r outcome \<Rightarrow> 'r pstate \<Rightarrow> 'r pstate option" where
  "poll_resume i out s =
     (case out of
        Rejects \<Rightarrow> Some (emit (Unhandled i) s)
      | Fulfils r cs c \<Rightarrow>
          if \<not> stop s then
            (case consumer_calls cs (emit (Delivered i r) s) of
               None \<Rightarrow> None
             | Some s1 \<Rightarrow> Some (after_consumer i c s1))
          else Some s)"

text \<open>
  One step of the event loop; \<open>None\<close> when the event cannot happen in the state: a stop
  closure exists only for a session that was started, a promise settles only while its
  request is in flight (and its consumer calls only closures that exist), and a timer
  fires only while it is pending and due.
\<close>

fun step :: "'r pstate \<Rightarrow> 'r event \<Rightarrow> 'r pstate option" where
  "step s Start = Some (start s)"
| "step s (Stop i) = (if i < started s then Some (stop_fn s) else None)"
| "step s (Settle i out) =
     (if i \<in> set (inflight s)
      then poll_resume i out (s\<lparr>inflight := remove1 i (inflight s)\<rparr>)
      else None)"
| "step s (Fire h) =
     (case find (\<lambda>e. fst e = h) (timers s) of
        None \<Rightarrow> None
      | Some (_, due, i) \<Rightarrow>
          if due \<le> now s
          then Some (poll i (s\<lparr>timers := filter (\<lambda>e. fst e \<noteq> h) (timers s)\<rparr>))
          else None)"
| "step s (Advance dt) = Some (s\<lparr>now := now s + dt\<rparr>)"

fun run :: "'r pstate \<Rightarrow> 'r event list \<Rightarrow> 'r pstate option" where
  "run s [] = Some s"
| "run s (e # es) = (case step s e of None \<Rightarrow> None | Some s' \<Rightarrow> run s' es)"

subsection \<open>Reading the state and the trace\<close>

text \<open>The session an observation belongs to, and the observations made between an
  earlier state and a later one.\<close>

fun obs_sid :: "'r obs \<Rightarrow> sid" where
  "obs_sid (Requested i) = i"
| "obs_sid (Delivered i r) = i"
| "obs_sid (Scheduled i h) = i"
| "obs_sid (Unhandled i) = i"

fun is_request :: "'r obs \<Rightarrow> bool" where
  "is_request (Requested i) = True"
| "is_request ob = False"



definition since :: "'r pstate \<Rightarrow> 'r pstate \<Rightarrow> 'r obs list" where
  "since s s' = drop (length (trace s)) (trace s')"

text \<open>The sessions that hold a pending timer, and the sessions whose loop is alive: a
  request in flight or a timer pending.\<close>

definition pending :: "'r pstate \<Rightarrow> sid list" where
  "pending s = map (\<lambda>e. snd (snd e)) (timers s)"

definition live :: "'r pstate \<Rightarrow> sid list" where
  "live s = inflight s @ pending s"


text \<open>What every state the poller can reach satisfies: no session has two loops (it is at
  most once in flight or pending, never both), every alive session was started, and the
  handles of the pending timers are distinct and were handed out.\<close>

definition wf :: "'r pstate \<Rightarrow> bool" where
  "wf s = (distinct (live s) \<and> (\<forall>i\<in>set (live s). i < started s) \<and>
           distinct (map fst (timers s)) \<and> (\<forall>e\<in>set (timers s). fst e < handles s))"








subsection \<open>The schedule of one undisturbed session\<close>

text \<open>
  A session that runs \<open>n\<close> iterations and is then stopped: start issues the first
  request; each request is fulfilled with the next result and the consumer returns
  without calling the poller; between
  two iterations the delay passes and the timer fires; the stop comes after the last
  delivery. \<open>i\<close> is the session and \<open>h\<close> the handle the host hands out next.
\<close>

fun iterations :: "nat \<Rightarrow> sid \<Rightarrow> handle \<Rightarrow> 'r list \<Rightarrow> 'r event list" where
  "iterations d i h [] = []"
| "iterations d i h [r] = [Settle i (Fulfils r [] Returns)]"
| "iterations d i h (r # rs) =
     Settle i (Fulfils r [] Returns) # Advance d # Fire h # iterations d i (Suc h) rs"

definition session :: "nat \<Rightarrow> sid \<Rightarrow> handle \<Rightarrow> 'r list \<Rightarrow> 'r event list" where
  "session d i h rs = Start # iterations d i h rs @ [Stop i]"

text \<open>What such a session is expected to show: the request of start, then for each
  result its delivery and the scheduling of the timer, with the next request in between
  two results.\<close>

fun session_obs :: "sid \<Rightarrow> handle \<Rightarrow> 'r list \<Rightarrow> 'r obs list" where
  "session_obs i h [] = []"
| "session_obs i h [r] = [Delivered i r, Scheduled i h]"
| "session_obs i h (r # rs) =
     Delivered i r # Scheduled i h # Requested i # session_obs i (Suc h) rs"

definition session_trace :: "sid \<Rightarrow> handle \<Rightarrow> 'r list \<Rightarrow> 'r obs list" where
  "session_trace i h rs = Requested i # session_obs i h rs"

text \<open>The results handed to the consumer of a session, in the order of the calls.\<close>

fun deliveries :: "sid \<Rightarrow> 'r obs list \<Rightarrow> 'r list" where
  "deliveries i [] = []"
| "deliveries i (Delivered j r # obs) =
     (if j = i then r # deliveries i obs else deliveries i obs)"
| "deliveries i (ob # obs) = deliveries i obs"

section \<open>Basic facts\<close>

lemma wf_iff:
  "wf s \<longleftrightarrow>
     distinct (inflight s) \<and> distinct (pending s) \<and>
     (\<forall>i\<in>set (inflight s). i \<notin> set (pending s)) \<and>
     (\<forall>i\<in>set (inflight s). i < started s) \<and>
     (\<forall>i\<in>set (pending s). i < started s) \<and>
     distinct (map fst (timers s)) \<and> (\<forall>e\<in>set (timers s). fst e < handles s)"
  unfolding wf_def live_def by (simp only: distinct_append set_append) blast

lemma poll_fields [simp]:
  "inflight (poll i s) = inflight s @ [i]"
  "timers (poll i s) = timers s"
  "trace (poll i s) = trace s @ [Requested i]"
  "stop (poll i s) = stop s"
  "timer (poll i s) = timer s"
  "handles (poll i s) = handles s"
  "started (poll i s) = started s"
  "now (poll i s) = now s"
  "delay (poll i s) = delay s"
  by (simp_all add: poll_def emit_def)

lemma start_fields [simp]:
  "inflight (start s) = inflight s @ [started s]"
  "timers (start s) = timers s"
  "trace (start s) = trace s @ [Requested (started s)]"
  "stop (start s) = False"
  "timer (start s) = timer s"
  "handles (start s) = handles s"
  "started (start s) = Suc (started s)"
  "now (start s) = now s"
  "delay (start s) = delay s"
  by (simp_all add: start_def)

lemma stop_fn_fields [simp]:
  "inflight (stop_fn s) = inflight s"
  "trace (stop_fn s) = trace s"
  "stop (stop_fn s) = True"
  "timer (stop_fn s) = timer s"
  "handles (stop_fn s) = handles s"
  "started (stop_fn s) = started s"
  "now (stop_fn s) = now s"
  "delay (stop_fn s) = delay s"
  by (simp_all add: stop_fn_def clearTimeout_def split: option.splits)

lemma after_consumer_Throws:
  "after_consumer i Throws s = s\<lparr>trace := trace s @ [Unhandled i]\<rparr>"
  by (simp add: after_consumer_def emit_def)

lemma after_consumer_Returns:
  "after_consumer i Returns s =
     s\<lparr>trace := trace s @ [Scheduled i (handles s)],
       timers := timers s @ [(handles s, now s + delay s, i)],
       handles := Suc (handles s),
       timer := Some (handles s)\<rparr>"
  by (simp add: after_consumer_def emit_def setTimeout_def)

lemma poll_resume_Rejects:
  "poll_resume i Rejects s = Some (s\<lparr>trace := trace s @ [Unhandled i]\<rparr>)"
  by (simp add: poll_resume_def emit_def)

lemma poll_resume_stopped:
  "stop s \<Longrightarrow> poll_resume i (Fulfils r cs c) s = Some s"
  by (simp add: poll_resume_def)

lemma poll_resume_called:
  "\<not> stop s \<Longrightarrow>
   poll_resume i (Fulfils r cs c) s =
     (case consumer_calls cs (s\<lparr>trace := trace s @ [Delivered i r]\<rparr>) of
        None \<Rightarrow> None
      | Some s1 \<Rightarrow> Some (after_consumer i c s1))"
  by (simp add: poll_resume_def emit_def)

lemma poll_resume_Throws:
  "\<not> stop s \<Longrightarrow>
   poll_resume i (Fulfils r [] Throws) s =
     Some (s\<lparr>trace := trace s @ [Delivered i r, Unhandled i]\<rparr>)"
  by (simp add: poll_resume_called after_consumer_Throws)

lemma poll_resume_Returns:
  "\<not> stop s \<Longrightarrow>
   poll_resume i (Fulfils r [] Returns) s =
     Some (s\<lparr>trace := trace s @ [Delivered i r, Scheduled i (handles s)],
             timers := timers s @ [(handles s, now s + delay s, i)],
             handles := Suc (handles s),
             timer := Some (handles s)\<rparr>)"
  by (simp add: poll_resume_called after_consumer_Returns)

lemma find_handle:
  "find (\<lambda>e. fst e = h) ts = Some (h', due, i) \<Longrightarrow> h' = h \<and> (h, due, i) \<in> set ts"
  by (induction ts) (auto split: if_splits)

lemma pending_simps [simp]:
  "pending (s\<lparr>inflight := xs\<rparr>) = pending s"
  "pending (s\<lparr>trace := t\<rparr>) = pending s"
  "pending (s\<lparr>now := n\<rparr>) = pending s"
  "pending (s\<lparr>stop := b\<rparr>) = pending s"
  "pending (s\<lparr>started := k\<rparr>) = pending s"
  "pending (s\<lparr>timer := ho\<rparr>) = pending s"
  "pending (s\<lparr>handles := k\<rparr>) = pending s"
  "pending (poll i s) = pending s"
  "pending (start s) = pending s"
  by (simp_all add: pending_def)

lemma pending_filter:
  "set (pending (s\<lparr>timers := filter P (timers s)\<rparr>)) \<subseteq> set (pending s)"
  "distinct (pending s) \<Longrightarrow> distinct (pending (s\<lparr>timers := filter P (timers s)\<rparr>))"
  by (auto simp: pending_def distinct_map_filter)

lemma timers_stop_fn_eq:
  "timers (stop_fn s) =
     (case timer s of None \<Rightarrow> timers s | Some h \<Rightarrow> filter (\<lambda>e. fst e \<noteq> h) (timers s))"
  by (simp add: stop_fn_def clearTimeout_def split: option.splits)

lemma pending_stop_fn:
  "set (pending (stop_fn s)) \<subseteq> set (pending s)"
  "distinct (pending s) \<Longrightarrow> distinct (pending (stop_fn s))"
  by (auto simp: pending_def timers_stop_fn_eq distinct_map_filter split: option.splits)

lemma timers_stop_fn:
  "set (timers (stop_fn s)) \<subseteq> set (timers s)"
  "distinct (map fst (timers s)) \<Longrightarrow> distinct (map fst (timers (stop_fn s)))"
  by (auto simp: timers_stop_fn_eq distinct_map_filter split: option.splits)

lemma wf_init: "wf (pollEvery d)"
  by (simp add: wf_def pollEvery_def live_def pending_def)

lemma wf_Start: "wf s \<Longrightarrow> wf (start s)"
  unfolding wf_iff by (simp add: less_Suc_eq) blast

lemma wf_Stop: "wf s \<Longrightarrow> wf (stop_fn s)"
  unfolding wf_iff using pending_stop_fn [of s] timers_stop_fn [of s]
  by (auto simp: subset_iff)

lemma wf_Advance: "wf s \<Longrightarrow> wf (s\<lparr>now := now s + dt\<rparr>)"
  by (simp add: wf_iff)

lemma wf_remove1:
  assumes "wf s" "i \<in> set (inflight s)"
  shows "wf (s\<lparr>inflight := remove1 i (inflight s)\<rparr>)"
    and "i \<notin> set (remove1 i (inflight s))"
    and "i \<notin> set (pending s)"
    and "i < started s"
proof -
  from assms show "i \<notin> set (remove1 i (inflight s))" "i \<notin> set (pending s)" "i < started s"
    unfolding wf_iff by auto
  from assms(1) show "wf (s\<lparr>inflight := remove1 i (inflight s)\<rparr>)"
    unfolding wf_iff by (simp add: distinct_remove1)
qed

lemma wf_schedule:
  assumes "wf s" "i \<notin> set (inflight s)" "i \<notin> set (pending s)" "i < started s"
  shows "wf (s\<lparr>trace := t, timers := timers s @ [(handles s, due, i)],
              handles := Suc (handles s), timer := Some (handles s)\<rparr>)"
proof -
  have p: "pending (s\<lparr>trace := t, timers := timers s @ [(handles s, due, i)],
              handles := Suc (handles s), timer := Some (handles s)\<rparr>) = pending s @ [i]"
    by (simp add: pending_def)
  from assms show ?thesis
    unfolding wf_iff p by (simp add: less_Suc_eq) fastforce
qed

lemma wf_trace: "wf s \<Longrightarrow> wf (s\<lparr>trace := t\<rparr>)"
  unfolding wf_iff by simp

text \<open>What the calls of a consumer can do: they start new sessions, whose first requests
  are the only observations, and they cancel timers.\<close>

lemma consumer_calls_effect:
  "consumer_calls cs s = Some s1 \<Longrightarrow>
     started s \<le> started s1 \<and> handles s1 = handles s \<and> delay s1 = delay s \<and>
     now s1 = now s \<and>
     set (inflight s1) \<subseteq> set (inflight s) \<union> {started s ..< started s1} \<and>
     set (pending s1) \<subseteq> set (pending s) \<and>
     set (timers s1) \<subseteq> set (timers s) \<and>
     (\<exists>t. trace s1 = trace s @ t \<and> (\<forall>ob\<in>set t. is_request ob \<and> started s \<le> obs_sid ob))"
proof (induction cs s rule: consumer_calls.induct)
  case (1 s)
  then show ?case by simp
next
  case (2 cs s)
  from "2.IH" [OF "2.prems" [simplified]] obtain t where
    a: "Suc (started s) \<le> started s1" "handles s1 = handles s" "delay s1 = delay s"
       "now s1 = now s"
       "set (inflight s1) \<subseteq> set (inflight (start s)) \<union> {Suc (started s) ..< started s1}"
       "set (pending s1) \<subseteq> set (pending s)" "set (timers s1) \<subseteq> set (timers s)"
       "trace s1 = trace (start s) @ t"
       "\<forall>ob\<in>set t. is_request ob \<and> Suc (started s) \<le> obs_sid ob"
    by auto
  from a(1,5) have i: "set (inflight s1) \<subseteq> set (inflight s) \<union> {started s ..< started s1}"
    by auto
  from a(8) have "trace s1 = trace s @ (Requested (started s) # t)" by simp
  moreover from a(9)
  have "\<forall>ob\<in>set (Requested (started s) # t). is_request ob \<and> started s \<le> obs_sid ob"
    by (auto dest: Suc_leD)
  ultimately have "\<exists>t. trace s1 = trace s @ t \<and>
      (\<forall>ob\<in>set t. is_request ob \<and> started s \<le> obs_sid ob)" by blast
  with a(1,2,3,4,6,7) i show ?case by simp
next
  case (3 j cs s)
  from "3.prems" have j: "j < started s" and r: "consumer_calls cs (stop_fn s) = Some s1"
    by (auto split: if_splits)
  from "3.IH" [OF j r] pending_stop_fn(1) [of s] timers_stop_fn(1) [of s] show ?case
    by auto
qed

lemma wf_consumer_calls: "consumer_calls cs s = Some s1 \<Longrightarrow> wf s \<Longrightarrow> wf s1"
  by (induction cs s rule: consumer_calls.induct)
     (auto simp: wf_Start wf_Stop split: if_splits)

lemma wf_after_consumer:
  assumes "wf s" "i \<notin> set (inflight s)" "i \<notin> set (pending s)" "i < started s"
  shows "wf (after_consumer i c s)"
proof (cases c)
  case Returns
  from wf_schedule [OF assms] show ?thesis
    unfolding Returns after_consumer_Returns .
next
  case Throws
  with assms(1) show ?thesis by (simp add: after_consumer_Throws wf_trace)
qed

lemma wf_Settle:
  assumes "wf s" "i \<in> set (inflight s)"
    and "poll_resume i out (s\<lparr>inflight := remove1 i (inflight s)\<rparr>) = Some s'"
  shows "wf s'"
proof -
  let ?s = "s\<lparr>inflight := remove1 i (inflight s)\<rparr>"
  note r = wf_remove1 [OF assms(1,2)]
  show ?thesis
  proof (cases out)
    case Rejects
    with r(1) assms(3) show ?thesis by (auto simp: poll_resume_Rejects wf_trace)
  next
    case (Fulfils r' cs c)
    show ?thesis
    proof (cases "stop ?s")
      case True
      with r(1) Fulfils assms(3) show ?thesis by (simp add: poll_resume_stopped)
    next
      case False
      let ?d = "?s\<lparr>trace := trace ?s @ [Delivered i r']\<rparr>"
      from False Fulfils assms(3) obtain s1 where
        s1: "consumer_calls cs ?d = Some s1" and s': "s' = after_consumer i c s1"
        by (auto simp: poll_resume_called split: option.splits)
      from r(1) have "wf ?d" by (rule wf_trace)
      with s1 have w1: "wf s1" by (rule wf_consumer_calls)
      from consumer_calls_effect [OF s1] r(2,3,4)
      have "i \<notin> set (inflight s1)" "i \<notin> set (pending s1)" "i < started s1"
        by auto
      with w1 show ?thesis unfolding s' by (rule wf_after_consumer)
    qed
  qed
qed

lemma fired_timer_unique:
  assumes "distinct (pending s)" "(h, due, i) \<in> set (timers s)"
  shows "i \<notin> set (pending (s\<lparr>timers := filter (\<lambda>e. fst e \<noteq> h) (timers s)\<rparr>))"
proof
  assume "i \<in> set (pending (s\<lparr>timers := filter (\<lambda>e. fst e \<noteq> h) (timers s)\<rparr>))"
  then obtain y where y: "y \<in> set (timers s)" "fst y \<noteq> h" "snd (snd y) = i"
    by (auto simp: pending_def)
  from assms(1) have "inj_on (\<lambda>e. snd (snd e)) (set (timers s))"
    by (simp add: pending_def distinct_map)
  from inj_onD [OF this, of y "(h, due, i)"] y assms(2) have "y = (h, due, i)" by simp
  with y(2) show False by simp
qed

lemma wf_Fire:
  assumes "wf s" "find (\<lambda>e. fst e = h) (timers s) = Some (h', due, i)"
  shows "wf (poll i (s\<lparr>timers := filter (\<lambda>e. fst e \<noteq> h) (timers s)\<rparr>))"
proof -
  let ?s = "s\<lparr>timers := filter (\<lambda>e. fst e \<noteq> h) (timers s)\<rparr>"
  from find_handle [OF assms(2)] have m: "(h, due, i) \<in> set (timers s)" by simp
  then have inp: "i \<in> set (pending s)" by (force simp: pending_def)
  from assms(1) have dp: "distinct (pending s)" by (simp add: wf_iff)
  note gone = fired_timer_unique [OF dp m]
  note sub = pending_filter [where s = s and P = "\<lambda>e. fst e \<noteq> h"]
  from assms(1) inp have a: "i \<notin> set (inflight s)" "i < started s"
    unfolding wf_iff by auto
  from assms(1) have b: "distinct (map fst (timers ?s))" "\<forall>e\<in>set (timers ?s). fst e < handles s"
    unfolding wf_iff by (simp_all add: distinct_map_filter)
  from assms(1) sub dp have c: "distinct (pending ?s)" "\<forall>j\<in>set (pending ?s). j < started s"
    "\<forall>j\<in>set (inflight s). j \<notin> set (pending ?s)"
    unfolding wf_iff by blast+
  from assms(1) have d: "distinct (inflight s)" "\<forall>j\<in>set (inflight s). j < started s"
    unfolding wf_iff by blast+
  show ?thesis
    unfolding wf_iff using a b c d gone by simp
qed

lemma wf_step: "wf s \<Longrightarrow> step s e = Some s' \<Longrightarrow> wf s'"
  by (cases e)
     (auto simp: wf_Start wf_Stop wf_Advance split: if_splits option.splits
           intro: wf_Fire wf_Settle)

lemma wf_run: "wf s \<Longrightarrow> run s es = Some s' \<Longrightarrow> wf s'"
  by (induction es arbitrary: s) (auto split: option.splits dest: wf_step)

lemma run_append:
  "run s (es @ es') = (case run s es of None \<Rightarrow> None | Some s1 \<Rightarrow> run s1 es')"
  by (induction es arbitrary: s) (auto split: option.splits)


lemma since_append: "trace s' = trace s @ t \<Longrightarrow> since s s' = t"
  by (simp add: since_def)

lemma since_self [simp]: "since s s = []"
  by (simp add: since_def)

lemma live_simps [simp]:
  "live (s\<lparr>trace := t\<rparr>) = live s"
  "live (s\<lparr>now := n\<rparr>) = live s"
  "live (s\<lparr>stop := b\<rparr>) = live s"
  "live (s\<lparr>timer := ho\<rparr>) = live s"
  "live (s\<lparr>handles := k\<rparr>) = live s"
  "live (s\<lparr>started := k\<rparr>) = live s"
  by (simp_all add: live_def)

lemma live_stop_fn: "set (live (stop_fn s)) \<subseteq> set (live s)"
  using pending_stop_fn(1) [of s] by (auto simp: live_def)

lemma after_consumer_effect:
  "started (after_consumer j c s) = started s \<and> delay (after_consumer j c s) = delay s \<and>
   inflight (after_consumer j c s) = inflight s \<and> stop (after_consumer j c s) = stop s \<and>
   set (pending (after_consumer j c s)) \<subseteq> insert j (set (pending s)) \<and>
   (\<exists>t. trace (after_consumer j c s) = trace s @ t \<and> (\<forall>ob\<in>set t. obs_sid ob = j))"
  by (cases c) (auto simp: after_consumer_Throws after_consumer_Returns pending_def)

text \<open>What resuming \<open>poll\<close> can do, whatever the outcome: the observations are of its own
  session or of sessions its consumer starts, and its session is left with no loop or
  with one pending timer.\<close>

lemma poll_resume_effect:
  assumes "poll_resume j out s = Some s'"
  shows "started s \<le> started s' \<and> delay s' = delay s \<and>
         set (inflight s') \<subseteq> set (inflight s) \<union> {started s ..< started s'} \<and>
         set (pending s') \<subseteq> insert j (set (pending s)) \<and>
         (\<exists>t. trace s' = trace s @ t \<and>
              (\<forall>ob\<in>set t. obs_sid ob = j \<or> started s \<le> obs_sid ob))"
proof (cases out)
  case Rejects
  with assms show ?thesis by (auto simp: poll_resume_Rejects)
next
  case (Fulfils r cs c)
  show ?thesis
  proof (cases "stop s")
    case True
    with Fulfils assms show ?thesis by (auto simp: poll_resume_stopped)
  next
    case False
    let ?d = "s\<lparr>trace := trace s @ [Delivered j r]\<rparr>"
    from False Fulfils assms obtain s1 where
      s1: "consumer_calls cs ?d = Some s1" and s': "s' = after_consumer j c s1"
      by (auto simp: poll_resume_called split: option.splits)
    from consumer_calls_effect [OF s1] obtain t where
      a: "started s \<le> started s1" "delay s1 = delay s"
         "set (inflight s1) \<subseteq> set (inflight s) \<union> {started s ..< started s1}"
         "set (pending s1) \<subseteq> set (pending s)"
         "trace s1 = trace s @ Delivered j r # t"
         "\<forall>ob\<in>set t. started s \<le> obs_sid ob"
      by auto
    from after_consumer_effect [of j c s1] obtain u where
      b: "started s' = started s1" "delay s' = delay s1" "inflight s' = inflight s1"
         "set (pending s') \<subseteq> insert j (set (pending s1))"
         "trace s' = trace s1 @ u" "\<forall>ob\<in>set u. obs_sid ob = j"
      unfolding s' by auto
    from a(5) b(5) have "trace s' = trace s @ (Delivered j r # t @ u)" by simp
    moreover from a(6) b(6)
    have "\<forall>ob\<in>set (Delivered j r # t @ u). obs_sid ob = j \<or> started s \<le> obs_sid ob"
      by auto
    ultimately have "\<exists>t. trace s' = trace s @ t \<and>
              (\<forall>ob\<in>set t. obs_sid ob = j \<or> started s \<le> obs_sid ob)" by blast
    with a(1,2,3,4) b(1,2,3,4) show ?thesis by auto
  qed
qed

text \<open>What a step can do: new sessions apart, only sessions that are alive act, and no
  other session comes alive.\<close>

lemma step_effect:
  assumes "step s e = Some s'"
  shows "started s \<le> started s' \<and>
         set (live s') \<subseteq> set (live s) \<union> {started s ..< started s'} \<and>
         trace s' = trace s @ since s s' \<and>
         (\<forall>ob\<in>set (since s s'). obs_sid ob \<in> set (live s) \<or> started s \<le> obs_sid ob)"
proof (cases e)
  case Start
  with assms show ?thesis by (auto simp: live_def since_def)
next
  case (Stop j)
  with assms live_stop_fn [of s] show ?thesis
    by (auto simp: since_def split: if_splits)
next
  case (Settle j out)
  let ?s = "s\<lparr>inflight := remove1 j (inflight s)\<rparr>"
  from Settle assms have j: "j \<in> set (inflight s)" and s': "poll_resume j out ?s = Some s'"
    by (auto split: if_splits)
  from poll_resume_effect [OF s'] obtain t where
    t: "started s \<le> started s'"
       "set (inflight s') \<subseteq> set (remove1 j (inflight s)) \<union> {started s ..< started s'}"
       "set (pending s') \<subseteq> insert j (set (pending s))"
       "trace s' = trace s @ t" "\<forall>ob\<in>set t. obs_sid ob = j \<or> started s \<le> obs_sid ob"
    by auto
  from t(2,3) j set_remove1_subset [of j "inflight s"]
  have "set (live s') \<subseteq> set (live s) \<union> {started s ..< started s'}"
    by (auto simp: live_def)
  moreover from t(4) have "since s s' = t" by (rule since_append)
  ultimately show ?thesis using t j by (auto simp: live_def)
next
  case (Fire h)
  from Fire assms obtain h' due j where
    f: "find (\<lambda>e. fst e = h) (timers s) = Some (h', due, j)" and
    s': "s' = poll j (s\<lparr>timers := filter (\<lambda>e. fst e \<noteq> h) (timers s)\<rparr>)"
    by (auto split: option.splits if_splits)
  from find_handle [OF f] have j: "j \<in> set (pending s)" by (force simp: pending_def)
  from pending_filter(1) [where s = s and P = "\<lambda>e. fst e \<noteq> h"] j
  show ?thesis unfolding s' by (auto simp: live_def since_def)
next
  case (Advance dt)
  with assms show ?thesis by (auto simp: since_def)
qed

lemma run_effect:
  "run s es = Some s' \<Longrightarrow>
     started s \<le> started s' \<and>
     set (live s') \<subseteq> set (live s) \<union> {started s ..< started s'} \<and>
     trace s' = trace s @ since s s' \<and>
     (\<forall>ob\<in>set (since s s'). obs_sid ob \<in> set (live s) \<or> started s \<le> obs_sid ob)"
proof (induction es arbitrary: s)
  case Nil
  then show ?case by simp
next
  case (Cons e es)
  from Cons.prems obtain s1 where s1: "step s e = Some s1" "run s1 es = Some s'"
    by (auto split: option.splits)
  note a = step_effect [OF s1(1)]
  note c = Cons.IH [OF s1(2)]
  from a c have tr: "trace s' = trace s @ (since s s1 @ since s1 s')" by simp
  then have sn: "since s s' = since s s1 @ since s1 s'" by (rule since_append)
  have in1: "x \<in> set (live s) \<or> started s \<le> x" if "x \<in> set (live s1)" for x
    using a that by auto
  have l: "set (live s') \<subseteq> set (live s) \<union> {started s ..< started s'}"
  proof
    fix x assume "x \<in> set (live s')"
    with c have "x \<in> set (live s1) \<or> (started s1 \<le> x \<and> x < started s')" by auto
    then show "x \<in> set (live s) \<union> {started s ..< started s'}"
    proof
      assume x1: "x \<in> set (live s1)"
      with a have "x \<in> set (live s) \<or> (started s \<le> x \<and> x < started s1)" by auto
      with c show ?thesis by auto
    next
      assume "started s1 \<le> x \<and> x < started s'"
      with a show ?thesis by auto
    qed
  qed
  have o: "\<forall>ob\<in>set (since s1 s'). obs_sid ob \<in> set (live s) \<or> started s \<le> obs_sid ob"
  proof
    fix ob assume "ob \<in> set (since s1 s')"
    with c have "obs_sid ob \<in> set (live s1) \<or> started s1 \<le> obs_sid ob" by blast
    with in1 a show "obs_sid ob \<in> set (live s) \<or> started s \<le> obs_sid ob" by auto
  qed
  from a c tr sn l o show ?case by auto
qed

text \<open>A session that was started and has no loop left never acts again.\<close>

lemma run_frame:
  assumes "run s es = Some s'" "i < started s" "i \<notin> set (live s)"
  shows "i < started s' \<and> i \<notin> set (live s') \<and>
         trace s' = trace s @ since s s' \<and> (\<forall>ob\<in>set (since s s'). obs_sid ob \<noteq> i)"
  using run_effect [OF assms(1)] assms(2,3) by fastforce

lemma filter_none: "(\<forall>x\<in>set xs. \<not> P x) \<Longrightarrow> filter P xs = []"
  by (induction xs) auto


lemmas poller_defs =
  pollEvery_def start_def stop_fn_def poll_def poll_resume_def after_consumer_def emit_def
  setTimeout_def clearTimeout_def

lemma reach_wf: "run (pollEvery d) es = Some s \<Longrightarrow> wf s"
  using wf_init wf_run by blast

lemma distinct_count_le_1: "distinct xs \<Longrightarrow> count_list xs x \<le> 1"
  by (induction xs) auto

















text \<open>The schedule of one undisturbed session.\<close>

lemma find_fresh:
  "\<forall>e\<in>set ts. fst e < (h::nat) \<Longrightarrow>
     find (\<lambda>e. fst e = h) (ts @ [(h, x, i)]) = Some (h, x, i)"
  by (induction ts) auto

lemma filter_below:
  "\<forall>e\<in>set ts. fst e < (h::nat) \<Longrightarrow> filter (\<lambda>e. fst e \<noteq> h) ts = ts"
  by (induction ts) auto

lemma cycle_run:
  assumes "i \<in> set (inflight s)" "\<not> stop s" "\<forall>e\<in>set (timers s). fst e < handles s"
  shows "run s (Settle i (Fulfils r [] Returns) # Advance (delay s) # Fire (handles s) # es) =
         run (s\<lparr>handles := Suc (handles s), timer := Some (handles s),
                now := now s + delay s,
                inflight := remove1 i (inflight s) @ [i],
                trace := trace s @ [Delivered i r, Scheduled i (handles s), Requested i]\<rparr>)
             es"
  using assms
  by (simp add: poll_resume_Returns find_fresh filter_below poll_def emit_def)

lemma iterations_run:
  assumes "i \<in> set (inflight s)" "\<not> stop s" "\<forall>e\<in>set (timers s). fst e < handles s"
  shows "\<exists>s'. run s (iterations (delay s) i (handles s) rs) = Some s' \<and>
           trace s' = trace s @ session_obs i (handles s) rs \<and>
           started s' = started s \<and>
           (rs = [] \<longrightarrow> s' = s) \<and>
           (rs \<noteq> [] \<longrightarrow> timer s' = Some (handles s + length rs - 1) \<and>
              (\<exists>due. timers s' = timers s @ [(handles s + length rs - 1, due, i)]))"
  using assms
proof (induction rs arbitrary: s)
  case Nil
  then show ?case by simp
next
  case (Cons r rs)
  show ?case
  proof (cases rs)
    case Nil
    with Cons.prems show ?thesis by (simp add: poll_resume_Returns)
  next
    case (Cons r' rs')
    let ?s3 = "s\<lparr>handles := Suc (handles s), timer := Some (handles s),
                now := now s + delay s,
                inflight := remove1 i (inflight s) @ [i],
                trace := trace s @ [Delivered i r, Scheduled i (handles s), Requested i]\<rparr>"
    have p: "i \<in> set (inflight ?s3)" "\<not> stop ?s3" "\<forall>e\<in>set (timers ?s3). fst e < handles ?s3"
      using Cons.prems by (auto simp: less_Suc_eq)
    from Cons.IH [OF p] obtain s' where
      s': "run ?s3 (iterations (delay ?s3) i (handles ?s3) rs) = Some s'"
          "trace s' = trace ?s3 @ session_obs i (handles ?s3) rs"
          "started s' = started ?s3"
          "timer s' = Some (handles ?s3 + length rs - 1)"
          "\<exists>due. timers s' = timers ?s3 @ [(handles ?s3 + length rs - 1, due, i)]"
      using Cons by auto
    have "run s (iterations (delay s) i (handles s) (r # rs)) =
          run ?s3 (iterations (delay ?s3) i (handles ?s3) rs)"
      using Cons cycle_run [OF Cons.prems] by simp
    with s' Cons show ?thesis by auto
  qed
qed

lemma deliveries_session_obs: "deliveries i (session_obs i h rs) = rs"
  by (induction i h rs rule: session_obs.induct) auto

lemma session_trace_nth:
  "k < length rs \<Longrightarrow>
     (Requested i # session_obs i h rs) ! (3 * k) = Requested i \<and>
     (Requested i # session_obs i h rs) ! (3 * k + 1) = Delivered i (rs ! k)"
proof (induction i h rs arbitrary: k rule: session_obs.induct)
  case (1 i h)
  then show ?case by simp
next
  case (2 i h r)
  then show ?case by simp
next
  case (3 i h r r' rs)
  show ?case
  proof (cases k)
    case 0
    then show ?thesis by simp
  next
    case (Suc k')
    with 3 show ?thesis by simp
  qed
qed

lemma delay_step: "step s e = Some s' \<Longrightarrow> delay s' = delay s"
  by (cases e) (auto dest: poll_resume_effect split: if_splits option.splits)

lemma delay_run: "run s es = Some s' \<Longrightarrow> delay s' = delay s"
  by (induction es arbitrary: s) (auto split: option.splits dest: delay_step)

lemma session_run:
  assumes "\<forall>e\<in>set (timers s). fst e < handles s"
  shows "\<exists>s'. run s (session (delay s) (started s) (handles s) rs) = Some s' \<and>
           trace s' = trace s @ session_trace (started s) (handles s) rs \<and>
           (timers s = [] \<longrightarrow> timers s' = []) \<and> stop s'"
proof -
  let ?i = "started s"
  let ?s1 = "start s"
  have p: "?i \<in> set (inflight ?s1)" "\<not> stop ?s1" "\<forall>e\<in>set (timers ?s1). fst e < handles ?s1"
    using assms by simp_all
  from iterations_run [OF p, of rs] obtain s2 where
    s2: "run ?s1 (iterations (delay s) ?i (handles s) rs) = Some s2"
        "trace s2 = trace ?s1 @ session_obs ?i (handles s) rs"
        "started s2 = Suc (started s)"
        "rs = [] \<longrightarrow> s2 = ?s1"
        "rs \<noteq> [] \<longrightarrow> timer s2 = Some (handles s + length rs - 1) \<and>
              (\<exists>due. timers s2 = timers s @ [(handles s + length rs - 1, due, ?i)])"
    by auto
  have t: "timers s = [] \<longrightarrow> timers (stop_fn s2) = []"
  proof (cases "rs = []")
    case True
    with s2(4) show ?thesis
      by (auto simp: timers_stop_fn_eq split: option.splits)
  next
    case False
    with s2(5) show ?thesis
      by (auto simp: timers_stop_fn_eq split: option.splits)
  qed
  have "run s (session (delay s) ?i (handles s) rs) = run s2 [Stop ?i]"
    using s2(1) by (simp add: session_def run_append)
  also have "\<dots> = Some (stop_fn s2)" using s2(3) by simp
  finally show ?thesis using s2(2) t by (simp add: session_trace_def)
qed

section \<open>One session, from start to stop\<close>

text \<open>
  C1. For every delay \<open>d\<close> and every list of results \<open>rs\<close>: on a fresh poller, the
  session that is started, has its requests fulfilled with \<open>rs\<close> one after the other
  (the delay passing and the timer firing in between) and is then stopped, can run, and
  its trace is exactly: request, delivery of the first result, scheduling, request,
  delivery of the second result, and so on. The consumer receives exactly \<open>rs\<close>, in
  order; the \<open>k\<close>-th request stands at position \<open>3k\<close> of the trace and the
  \<open>k\<close>-th delivery at position \<open>3k + 1\<close>, so each delivery comes strictly before
  the next request; after the stop no timer is pending.
\<close>

theorem session_delivers_results_in_order:
  "\<exists>s'. run (pollEvery d) (session d 0 0 rs) = Some s' \<and>
         trace s' = session_trace 0 0 rs \<and>
         deliveries 0 (trace s') = rs \<and>
         timers s' = [] \<and> stop s' \<and>
         (\<forall>k<length rs. trace s' ! (3 * k) = Requested 0 \<and>
                         trace s' ! (3 * k + 1) = Delivered 0 (rs ! k))"
proof -
  let ?s = "pollEvery d :: 'a pstate"
  have f: "\<forall>e\<in>set (timers ?s). fst e < handles ?s" by (simp add: pollEvery_def)
  have v: "delay ?s = d" "started ?s = 0" "handles ?s = 0" "trace ?s = []" "timers ?s = []"
    by (simp_all add: pollEvery_def)
  from session_run [OF f, of rs] v obtain s' where
    s': "run ?s (session d 0 0 rs) = Some s'" "trace s' = session_trace 0 0 rs"
        "timers s' = []" "stop s'"
    by auto
  have "deliveries 0 (session_trace 0 0 rs) = rs"
    by (simp add: session_trace_def deliveries_session_obs)
  with s' session_trace_nth [of _ rs 0 0] show ?thesis
    by (auto simp: session_trace_def)
qed

theorem session_delivers_results_in_order_witness:
  "run (pollEvery 100 :: nat pstate) (session 100 0 0 [1, 2, 3])
     = Some \<lparr>delay = 100, timer = Some 2, stop = True, now = 200, timers = [],
             handles = 3, inflight = [], started = 1,
             trace = [Requested 0, Delivered 0 1, Scheduled 0 0,
                      Requested 0, Delivered 0 2, Scheduled 0 1,
                      Requested 0, Delivered 0 3, Scheduled 0 2]\<rparr> \<and>
   (1::nat) < length [1, 2, 3 :: nat] \<and>
   [Requested 0, Delivered 0 1, Scheduled 0 0,
    Requested 0, Delivered 0 2, Scheduled 0 1,
    Requested 0, Delivered 0 3, Scheduled 0 2] ! (3 * 1 + 1) = Delivered 0 (2::nat) \<and>
   deliveries 0 [Requested 0, Delivered 0 1, Scheduled 0 0,
    Requested 0, Delivered 0 2, Scheduled 0 1,
    Requested 0, Delivered 0 3, Scheduled 0 2] = [1, 2, 3 :: nat]"
proof -
  let ?t = "[Requested 0, Delivered 0 1, Scheduled 0 0,
             Requested 0, Delivered 0 2, Scheduled 0 1,
             Requested 0, Delivered 0 3, Scheduled 0 2] :: nat obs list"
  let ?s = "\<lparr>delay = 100, timer = Some 2, stop = True, now = 200, timers = [],
             handles = 3, inflight = [], started = 1, trace = ?t\<rparr> :: nat pstate"
  have r: "run (pollEvery 100 :: nat pstate) (session 100 0 0 [1, 2, 3]) = Some ?s"
    by (simp add: session_def poller_defs)
  have k: "(1::nat) < length [1, 2, 3 :: nat]" by simp
  from session_delivers_results_in_order [of 100 "[1, 2, 3 :: nat]"] obtain s' where
    s': "run (pollEvery 100 :: nat pstate) (session 100 0 0 [1, 2, 3]) = Some s'"
        "deliveries 0 (trace s') = [1, 2, 3]"
        "\<forall>k<length [1, 2, 3 :: nat]. trace s' ! (3 * k) = Requested 0 \<and>
                         trace s' ! (3 * k + 1) = Delivered 0 ([1, 2, 3] ! k)"
    by blast
  from r s'(1) have e: "s' = ?s" by simp
  from s'(3) k have "trace s' ! (3 * 1 + 1) = Delivered 0 ([1, 2, 3] ! 1)" by blast
  with e have c: "?t ! (3 * 1 + 1) = Delivered 0 2" by simp
  from s'(2) e have d: "deliveries 0 ?t = [1, 2, 3]" by simp
  from r k c d show ?thesis by blast
qed

section \<open>One request at a time\<close>

text \<open>
  C7. In every state the poller can reach, and for every session, the number of its
  requests in flight plus the number of its pending timers is at most one: a session
  never has two requests in flight, and none while its timer is pending. The next request
  of a session is issued only by the timer that the resumed \<open>poll\<close> sets after the
  previous request has settled and its result was delivered.
\<close>

theorem one_request_in_flight:
  "run (pollEvery d) es = Some s \<Longrightarrow>
     count_list (inflight s) i + count_list (pending s) i \<le> 1"
proof -
  assume "run (pollEvery d) es = Some s"
  then have "distinct (live s)" using reach_wf by (auto simp: wf_def)
  then have "count_list (live s) i \<le> 1"
    by (rule distinct_count_le_1)
  then show ?thesis by (simp add: live_def)
qed

theorem one_request_in_flight_witness:
  "run (pollEvery 100 :: nat pstate)
      [Start, Settle 0 (Fulfils 1 [] Returns), Advance 100, Fire 0]
     = Some \<lparr>delay = 100, timer = Some 0, stop = False, now = 100, timers = [],
             handles = 1, inflight = [0], started = 1,
             trace = [Requested 0, Delivered 0 1, Scheduled 0 0, Requested 0]\<rparr> \<and>
   count_list [0::nat] 0 + count_list ([]::nat list) 0 \<le> 1"
proof -
  let ?s = "\<lparr>delay = 100, timer = Some 0, stop = False, now = 100, timers = [],
             handles = 1, inflight = [0], started = 1,
             trace = [Requested 0, Delivered 0 (1::nat), Scheduled 0 0, Requested 0]\<rparr>"
  have r: "run (pollEvery 100 :: nat pstate)
      [Start, Settle 0 (Fulfils 1 [] Returns), Advance 100, Fire 0] = Some ?s"
    by (simp add: poller_defs)
  from one_request_in_flight [OF r, of 0] r show ?thesis
    by (simp add: pending_def)
qed

section \<open>A failing request, a failing consumer\<close>

text \<open>
  C5. When the request of a session rejects, \<open>poll\<close> does not catch it: the step only
  drops the request and leaves an unhandled rejection; the consumer is not called, no
  timer is set, and whatever happens afterwards, nothing is ever observed of that session
  again (no request, no delivery, no scheduling): it has no loop left.
\<close>

theorem rejected_request_ends_session:
  assumes "run (pollEvery d) es = Some s" "i \<in> set (inflight s)"
    and "run s (Settle i Rejects # es') = Some s'"
  shows "step s (Settle i Rejects) =
           Some (s\<lparr>inflight := remove1 i (inflight s), trace := trace s @ [Unhandled i]\<rparr>) \<and>
         filter (\<lambda>ob. obs_sid ob = i) (since s s') = [Unhandled i] \<and>
         i \<notin> set (live s')"
proof -
  let ?s1 = "s\<lparr>inflight := remove1 i (inflight s), trace := trace s @ [Unhandled i]\<rparr>"
  have st: "step s (Settle i Rejects) = Some ?s1"
    using assms(2) by (simp add: poll_resume_Rejects)
  with assms(3) have r1: "run ?s1 es' = Some s'" by simp
  note w = wf_remove1 [OF reach_wf [OF assms(1)] assms(2)]
  have dead: "i < started ?s1" "i \<notin> set (live ?s1)"
    using w by (simp_all add: live_def)
  note f = run_frame [OF r1 dead]
  from f have "trace s' = trace s @ (Unhandled i # since ?s1 s')" by simp
  then have "since s s' = Unhandled i # since ?s1 s'" by (rule since_append)
  with f st show ?thesis by (simp add: filter_none)
qed

theorem rejected_request_ends_session_witness:
  "run (pollEvery 100 :: nat pstate)
      [Start, Settle 0 (Fulfils 1 [] Returns), Advance 100, Fire 0]
     = Some \<lparr>delay = 100, timer = Some 0, stop = False, now = 100, timers = [],
             handles = 1, inflight = [0], started = 1,
             trace = [Requested 0, Delivered 0 1, Scheduled 0 0, Requested 0]\<rparr> \<and>
   run \<lparr>delay = 100, timer = Some 0, stop = False, now = 100, timers = [],
             handles = 1, inflight = [0], started = 1,
             trace = [Requested 0, Delivered 0 (1::nat), Scheduled 0 0, Requested 0]\<rparr>
      [Settle 0 Rejects, Advance 1000, Stop 0]
     = Some \<lparr>delay = 100, timer = Some 0, stop = True, now = 1100, timers = [],
             handles = 1, inflight = [], started = 1,
             trace = [Requested 0, Delivered 0 1, Scheduled 0 0, Requested 0, Unhandled 0]\<rparr> \<and>
   filter (\<lambda>ob. obs_sid ob = 0)
     (since \<lparr>delay = 100, timer = Some 0, stop = False, now = 100, timers = [],
             handles = 1, inflight = [0], started = 1,
             trace = [Requested 0, Delivered 0 (1::nat), Scheduled 0 0, Requested 0]\<rparr>
            \<lparr>delay = 100, timer = Some 0, stop = True, now = 1100, timers = [],
             handles = 1, inflight = [], started = 1,
             trace = [Requested 0, Delivered 0 1, Scheduled 0 0, Requested 0, Unhandled 0]\<rparr>)
     = [Unhandled 0]"
proof -
  let ?s = "\<lparr>delay = 100, timer = Some 0, stop = False, now = 100, timers = [],
             handles = 1, inflight = [0], started = 1,
             trace = [Requested 0, Delivered 0 (1::nat), Scheduled 0 0, Requested 0]\<rparr>"
  let ?s' = "\<lparr>delay = 100, timer = Some 0, stop = True, now = 1100, timers = [],
             handles = 1, inflight = [], started = 1,
             trace = [Requested 0, Delivered 0 (1::nat), Scheduled 0 0, Requested 0,
                      Unhandled 0]\<rparr>"
  have r: "run (pollEvery 100 :: nat pstate)
      [Start, Settle 0 (Fulfils 1 [] Returns), Advance 100, Fire 0] = Some ?s"
    by (simp add: poller_defs)
  have m: "0 \<in> set (inflight ?s)" by simp
  have r': "run ?s (Settle 0 Rejects # [Advance 1000, Stop 0]) = Some ?s'"
    by (simp add: poller_defs)
  from rejected_request_ends_session [OF r m r']
  have "filter (\<lambda>ob. obs_sid ob = 0) (since ?s ?s') = [Unhandled 0]" by blast
  with r r' show ?thesis by blast
qed

text \<open>
  C10. When the poller is not stopped and the request of a session is fulfilled, the
  consumer is called first and the timer is set after it; so when the consumer throws
  (whatever it called before), the delivery is followed by an unhandled rejection only,
  no timer is set, and nothing is ever observed of that session again.
\<close>

theorem throwing_consumer_ends_session:
  assumes "run (pollEvery d) es = Some s" "i \<in> set (inflight s)" "\<not> stop s"
    and "run s (Settle i (Fulfils r cs Throws) # es') = Some s'"
  shows "step s (Settle i (Fulfils r [] Returns)) =
           Some (s\<lparr>inflight := remove1 i (inflight s),
                   trace := trace s @ [Delivered i r, Scheduled i (handles s)],
                   timers := timers s @ [(handles s, now s + delay s, i)],
                   handles := Suc (handles s), timer := Some (handles s)\<rparr>) \<and>
         step s (Settle i (Fulfils r [] Throws)) =
           Some (s\<lparr>inflight := remove1 i (inflight s),
                   trace := trace s @ [Delivered i r, Unhandled i]\<rparr>) \<and>
         filter (\<lambda>ob. obs_sid ob = i) (since s s') = [Delivered i r, Unhandled i] \<and>
         i \<notin> set (live s')"
proof -
  let ?s = "s\<lparr>inflight := remove1 i (inflight s)\<rparr>"
  let ?d = "?s\<lparr>trace := trace ?s @ [Delivered i r]\<rparr>"
  have ok: "step s (Settle i (Fulfils r [] Returns)) =
           Some (s\<lparr>inflight := remove1 i (inflight s),
                   trace := trace s @ [Delivered i r, Scheduled i (handles s)],
                   timers := timers s @ [(handles s, now s + delay s, i)],
                   handles := Suc (handles s), timer := Some (handles s)\<rparr>)"
    using assms(2,3) by (simp add: poll_resume_Returns)
  have th: "step s (Settle i (Fulfils r [] Throws)) =
           Some (s\<lparr>inflight := remove1 i (inflight s),
                   trace := trace s @ [Delivered i r, Unhandled i]\<rparr>)"
    using assms(2,3) by (simp add: poll_resume_Throws)
  from assms(4) obtain s2 where
    s2: "step s (Settle i (Fulfils r cs Throws)) = Some s2" and r2: "run s2 es' = Some s'"
    by (auto split: option.splits)
  from s2 assms(2,3) obtain s1 where
    s1: "consumer_calls cs ?d = Some s1" and e: "s2 = s1\<lparr>trace := trace s1 @ [Unhandled i]\<rparr>"
    by (auto simp: poll_resume_called after_consumer_Throws split: option.splits)
  note w = wf_remove1 [OF reach_wf [OF assms(1)] assms(2)]
  from consumer_calls_effect [OF s1] obtain t where
    c: "started s \<le> started s1"
       "set (inflight s1) \<subseteq> set (remove1 i (inflight s)) \<union> {started s ..< started s1}"
       "set (pending s1) \<subseteq> set (pending s)"
       "trace s1 = trace s @ Delivered i r # t"
       "\<forall>ob\<in>set t. started s \<le> obs_sid ob"
    by auto
  from c(1,2,3) w have dead: "i < started s2" "i \<notin> set (live s2)"
    unfolding e by (auto simp: live_def)
  note f = run_frame [OF r2 dead]
  from c(5) w(4) have nt: "\<forall>ob\<in>set t. obs_sid ob \<noteq> i" by auto
  from f c(4) have "trace s' = trace s @ (Delivered i r # t @ Unhandled i # since s2 s')"
    unfolding e by simp
  then have "since s s' = Delivered i r # t @ Unhandled i # since s2 s'"
    by (rule since_append)
  with f nt have "filter (\<lambda>ob. obs_sid ob = i) (since s s') = [Delivered i r, Unhandled i]"
    by (simp add: filter_none)
  with f ok th show ?thesis by simp
qed

theorem throwing_consumer_ends_session_witness:
  "run (pollEvery 100 :: nat pstate)
      [Start, Settle 0 (Fulfils 1 [] Returns), Advance 100, Fire 0]
     = Some \<lparr>delay = 100, timer = Some 0, stop = False, now = 100, timers = [],
             handles = 1, inflight = [0], started = 1,
             trace = [Requested 0, Delivered 0 1, Scheduled 0 0, Requested 0]\<rparr> \<and>
   run \<lparr>delay = 100, timer = Some 0, stop = False, now = 100, timers = [],
             handles = 1, inflight = [0], started = 1,
             trace = [Requested 0, Delivered 0 (1::nat), Scheduled 0 0, Requested 0]\<rparr>
      [Settle 0 (Fulfils 2 [] Throws), Advance 1000]
     = Some \<lparr>delay = 100, timer = Some 0, stop = False, now = 1100, timers = [],
             handles = 1, inflight = [], started = 1,
             trace = [Requested 0, Delivered 0 1, Scheduled 0 0, Requested 0,
                      Delivered 0 2, Unhandled 0]\<rparr> \<and>
   filter (\<lambda>ob. obs_sid ob = 0)
     (since \<lparr>delay = 100, timer = Some 0, stop = False, now = 100, timers = [],
             handles = 1, inflight = [0], started = 1,
             trace = [Requested 0, Delivered 0 (1::nat), Scheduled 0 0, Requested 0]\<rparr>
            \<lparr>delay = 100, timer = Some 0, stop = False, now = 1100, timers = [],
             handles = 1, inflight = [], started = 1,
             trace = [Requested 0, Delivered 0 1, Scheduled 0 0, Requested 0,
                      Delivered 0 2, Unhandled 0]\<rparr>)
     = [Delivered 0 2, Unhandled 0]"
proof -
  let ?s = "\<lparr>delay = 100, timer = Some 0, stop = False, now = 100, timers = [],
             handles = 1, inflight = [0], started = 1,
             trace = [Requested 0, Delivered 0 (1::nat), Scheduled 0 0, Requested 0]\<rparr>"
  let ?s' = "\<lparr>delay = 100, timer = Some 0, stop = False, now = 1100, timers = [],
             handles = 1, inflight = [], started = 1,
             trace = [Requested 0, Delivered 0 (1::nat), Scheduled 0 0, Requested 0,
                      Delivered 0 2, Unhandled 0]\<rparr>"
  have r: "run (pollEvery 100 :: nat pstate)
      [Start, Settle 0 (Fulfils 1 [] Returns), Advance 100, Fire 0] = Some ?s"
    by (simp add: poller_defs)
  have m: "0 \<in> set (inflight ?s)" by simp
  have ns: "\<not> stop ?s" by simp
  have r': "run ?s (Settle 0 (Fulfils 2 [] Throws) # [Advance 1000]) = Some ?s'"
    by (simp add: poller_defs)
  from throwing_consumer_ends_session [OF r m ns r']
  have "filter (\<lambda>ob. obs_sid ob = 0) (since ?s ?s') = [Delivered 0 2, Unhandled 0]" by blast
  with r r' show ?thesis by blast
qed

section \<open>One flag for all sessions\<close>

text \<open>
  C9. In any state in which session \<open>i\<close> has a request in flight: after a call of a
  stop closure and then a call of start, the fulfilment of that request is delivered to
  the consumer of session \<open>i\<close> and its timer is set, since start has put the flag back
  to false; the stopped session runs on.
\<close>

theorem restart_resurrects_stopped_session:
  assumes "i \<in> set (inflight s)" "j < started s"
  shows "\<exists>s'. run s [Stop j, Start, Settle i (Fulfils r [] Returns)] = Some s' \<and>
           trace s' = trace s @ [Requested (started s), Delivered i r, Scheduled i (handles s)] \<and>
           (handles s, now s + delay s, i) \<in> set (timers s') \<and>
           timer s' = Some (handles s) \<and> \<not> stop s'"
  using assms by (simp add: poll_resume_Returns)

theorem restart_resurrects_stopped_session_witness:
  "(0::nat) \<in> set (inflight (start (pollEvery 100 :: nat pstate))) \<and>
   (0::nat) < started (start (pollEvery 100 :: nat pstate)) \<and>
   (\<exists>s'. run (start (pollEvery 100 :: nat pstate))
            [Stop 0, Start, Settle 0 (Fulfils 7 [] Returns)] = Some s' \<and>
         trace s' = [Requested 0, Requested 1, Delivered 0 7, Scheduled 0 0] \<and>
         \<not> stop s')"
proof -
  let ?s = "start (pollEvery 100 :: nat pstate)"
  have m: "0 \<in> set (inflight ?s)" by (simp add: pollEvery_def)
  have j: "0 < started ?s" by simp
  have t: "trace ?s = [Requested 0]" "started ?s = 1" "handles ?s = 0"
    by (simp_all add: pollEvery_def)
  from restart_resurrects_stopped_session [OF m j, of 7]
  obtain s' where "run ?s [Stop 0, Start, Settle 0 (Fulfils 7 [] Returns)] = Some s'"
    "trace s' = trace ?s @ [Requested (started ?s), Delivered 0 7, Scheduled 0 (handles ?s)]"
    "\<not> stop s'" by blast
  with t have "\<exists>s'. run ?s [Stop 0, Start, Settle 0 (Fulfils 7 [] Returns)] = Some s' \<and>
         trace s' = [Requested 0, Requested 1, Delivered 0 7, Scheduled 0 0] \<and> \<not> stop s'"
    by auto
  with m j show ?thesis by blast
qed

text \<open>
  C4, with what start does to the flag. The flag is one variable for all sessions: a stop
  closure of any session \<open>b\<close> sets it. With session \<open>a\<close> in flight, after the stop of
  \<open>b\<close> the fulfilment of the request of \<open>a\<close> is discarded without a trace, session
  \<open>a\<close> has no loop left, and nothing is ever observed of it again. A call of start
  writes the same flag but only clears it, whatever it was: it halts no session, and
  after it the fulfilment of the request of \<open>a\<close> is delivered and the timer of \<open>a\<close>
  is set.
\<close>

theorem shared_flag_stop_halts_start_does_not:
  assumes "run (pollEvery d) es = Some s" "a \<in> set (inflight s)" "b < started s"
    and "run s (Stop b # Settle a (Fulfils r cs c) # es') = Some s'"
  shows "stop (stop_fn s) \<and> \<not> stop (start s) \<and> \<not> stop (start (stop_fn s)) \<and>
         step (stop_fn s) (Settle a (Fulfils r cs c)) =
           Some ((stop_fn s)\<lparr>inflight := remove1 a (inflight s)\<rparr>) \<and>
         filter (\<lambda>ob. obs_sid ob = a) (since s s') = [] \<and>
         a \<notin> set (live s') \<and>
         (\<exists>s2. run s [Start, Settle a (Fulfils r [] Returns)] = Some s2 \<and>
               since s s2 = [Requested (started s), Delivered a r, Scheduled a (handles s)] \<and>
               (handles s, now s + delay s, a) \<in> set (timers s2))"
proof -
  let ?s1 = "stop_fn s"
  let ?s2 = "?s1\<lparr>inflight := remove1 a (inflight s)\<rparr>"
  have st: "step ?s1 (Settle a (Fulfils r cs c)) = Some ?s2"
    using assms(2) by (simp add: poll_resume_stopped)
  with assms(3,4) have r2: "run ?s2 es' = Some s'" by simp
  have w1: "wf ?s1" using reach_wf [OF assms(1)] by (rule wf_Stop)
  have a1: "a \<in> set (inflight ?s1)" using assms(2) by simp
  note w = wf_remove1 [OF w1 a1]
  have dead: "a < started ?s2" "a \<notin> set (live ?s2)"
    using w by (simp_all add: live_def)
  note f = run_frame [OF r2 dead]
  from f have "trace s' = trace s @ since ?s2 s'" by simp
  then have "since s s' = since ?s2 s'" by (rule since_append)
  with f have 1: "filter (\<lambda>ob. obs_sid ob = a) (since s s') = []" "a \<notin> set (live s')"
    by (simp_all add: filter_none)
  have 2: "\<exists>s2. run s [Start, Settle a (Fulfils r [] Returns)] = Some s2 \<and>
               since s s2 = [Requested (started s), Delivered a r, Scheduled a (handles s)] \<and>
               (handles s, now s + delay s, a) \<in> set (timers s2)"
    using assms(2) by (simp add: poll_resume_Returns since_def)
  from st 1 2 show ?thesis by simp
qed

theorem shared_flag_stop_halts_start_does_not_witness:
  "run (pollEvery 100 :: nat pstate) [Start, Start]
     = Some \<lparr>delay = 100, timer = None, stop = False, now = 0, timers = [],
             handles = 0, inflight = [0, 1], started = 2,
             trace = [Requested 0, Requested 1]\<rparr> \<and>
   run (\<lparr>delay = 100, timer = None, stop = False, now = 0, timers = [],
             handles = 0, inflight = [0, 1], started = 2,
             trace = [Requested 0, Requested 1]\<rparr> :: nat pstate)
      [Stop 1, Settle 0 (Fulfils 5 [] Returns), Advance 1000]
     = Some \<lparr>delay = 100, timer = None, stop = True, now = 1000, timers = [],
             handles = 0, inflight = [1], started = 2,
             trace = [Requested 0, Requested 1]\<rparr> \<and>
   0 \<notin> set (live (\<lparr>delay = 100, timer = None, stop = True, now = 1000, timers = [],
             handles = 0, inflight = [1], started = 2,
             trace = [Requested 0, Requested 1]\<rparr> :: nat pstate)) \<and>
   (\<exists>s2. run (\<lparr>delay = 100, timer = None, stop = False, now = 0, timers = [],
             handles = 0, inflight = [0, 1], started = 2,
             trace = [Requested 0, Requested 1]\<rparr> :: nat pstate)
              [Start, Settle 0 (Fulfils 5 [] Returns)] = Some s2 \<and>
         trace s2 = [Requested 0, Requested 1, Requested 2, Delivered 0 5, Scheduled 0 0])"
proof -
  let ?s = "\<lparr>delay = 100, timer = None, stop = False, now = 0, timers = [],
             handles = 0, inflight = [0, 1], started = 2,
             trace = [Requested 0, Requested 1]\<rparr> :: nat pstate"
  let ?s' = "\<lparr>delay = 100, timer = None, stop = True, now = 1000, timers = [],
             handles = 0, inflight = [1], started = 2,
             trace = [Requested 0, Requested 1]\<rparr> :: nat pstate"
  have r: "run (pollEvery 100 :: nat pstate) [Start, Start] = Some ?s"
    by (simp add: poller_defs)
  have m: "0 \<in> set (inflight ?s)" by simp
  have b: "1 < started ?s" by simp
  have r': "run ?s (Stop 1 # Settle 0 (Fulfils 5 [] Returns) # [Advance 1000]) = Some ?s'"
    by (simp add: poller_defs)
  note t = shared_flag_stop_halts_start_does_not [OF r m b r']
  from t have 1: "0 \<notin> set (live ?s')" by blast
  from t obtain s2 where
    s2: "run ?s [Start, Settle 0 (Fulfils 5 [] Returns)] = Some s2"
        "since ?s s2 = [Requested (started ?s), Delivered 0 5, Scheduled 0 (handles ?s)]"
    by blast
  from run_effect [OF s2(1)] s2(2)
  have "trace s2 = [Requested 0, Requested 1, Requested 2, Delivered 0 5, Scheduled 0 0]"
    by simp
  with s2(1) have 2: "\<exists>s2. run ?s [Start, Settle 0 (Fulfils 5 [] Returns)] = Some s2 \<and>
         trace s2 = [Requested 0, Requested 1, Requested 2, Delivered 0 5, Scheduled 0 0]"
    by blast
  from r r' 1 2 show ?thesis by blast
qed

theorem third_start_halts_nothing_counterexample:
  "run (pollEvery 100 :: nat pstate) [Start, Start]
     = Some \<lparr>delay = 100, timer = None, stop = False, now = 0, timers = [],
             handles = 0, inflight = [0, 1], started = 2,
             trace = [Requested 0, Requested 1]\<rparr> \<and>
   run (pollEvery 100 :: nat pstate)
       [Start, Start, Start, Settle 0 (Fulfils 5 [] Returns), Settle 1 (Fulfils 6 [] Returns)]
     = Some \<lparr>delay = 100, timer = Some 1, stop = False, now = 0,
             timers = [(0, 100, 0), (1, 100, 1)],
             handles = 2, inflight = [2], started = 3,
             trace = [Requested 0, Requested 1, Requested 2,
                      Delivered 0 5, Scheduled 0 0, Delivered 1 6, Scheduled 1 1]\<rparr>"
  by (simp add: poller_defs)

section \<open>After stop\<close>







section \<open>Starting again\<close>

text \<open>
  C6. In every state the poller can reach (in particular after start and stop), a call of
  start clears the flag and creates a new session with its own number, and the session
  it begins runs as on a fresh poller: the observations made from the call of start on
  are exactly the trace of one session of the new number, and its consumer receives
  exactly the new results, from the first one on.
\<close>

theorem restart_begins_fresh_session:
  assumes "run (pollEvery d) es = Some s"
  shows "\<not> stop (start s) \<and> started (start s) = Suc (started s) \<and>
         (\<exists>s'. run s (session d (started s) (handles s) rs) = Some s' \<and>
               since s s' = session_trace (started s) (handles s) rs \<and>
               deliveries (started s) (since s s') = rs \<and> stop s')"
proof -
  from reach_wf [OF assms] have f: "\<forall>e\<in>set (timers s). fst e < handles s"
    by (simp add: wf_def)
  from delay_run [OF assms] have d: "delay s = d" by (simp add: pollEvery_def)
  from session_run [OF f, of rs] d obtain s' where
    s': "run s (session d (started s) (handles s) rs) = Some s'"
        "trace s' = trace s @ session_trace (started s) (handles s) rs" "stop s'"
    by auto
  from s'(2) have "since s s' = session_trace (started s) (handles s) rs"
    by (rule since_append)
  moreover have "deliveries (started s) (session_trace (started s) (handles s) rs) = rs"
    by (simp add: session_trace_def deliveries_session_obs)
  ultimately show ?thesis using s' by auto
qed

theorem restart_begins_fresh_session_witness:
  "run (pollEvery 100 :: nat pstate) (session 100 0 0 [1, 2, 3])
     = Some \<lparr>delay = 100, timer = Some 2, stop = True, now = 200, timers = [],
             handles = 3, inflight = [], started = 1,
             trace = [Requested 0, Delivered 0 1, Scheduled 0 0,
                      Requested 0, Delivered 0 2, Scheduled 0 1,
                      Requested 0, Delivered 0 3, Scheduled 0 2]\<rparr> \<and>
   (\<exists>s'. run (\<lparr>delay = 100, timer = Some 2, stop = True, now = 200, timers = [],
             handles = 3, inflight = [], started = 1,
             trace = [Requested 0, Delivered 0 1, Scheduled 0 0,
                      Requested 0, Delivered 0 2, Scheduled 0 1,
                      Requested 0, Delivered 0 3, Scheduled 0 2]\<rparr> :: nat pstate)
              (session 100 1 3 [4, 5]) = Some s' \<and>
         since (\<lparr>delay = 100, timer = Some 2, stop = True, now = 200, timers = [],
             handles = 3, inflight = [], started = 1,
             trace = [Requested 0, Delivered 0 1, Scheduled 0 0,
                      Requested 0, Delivered 0 2, Scheduled 0 1,
                      Requested 0, Delivered 0 3, Scheduled 0 2]\<rparr> :: nat pstate) s'
           = [Requested 1, Delivered 1 4, Scheduled 1 3,
              Requested 1, Delivered 1 5, Scheduled 1 4])"
proof -
  let ?t = "[Requested 0, Delivered 0 1, Scheduled 0 0,
             Requested 0, Delivered 0 2, Scheduled 0 1,
             Requested 0, Delivered 0 3, Scheduled 0 2] :: nat obs list"
  let ?s = "\<lparr>delay = 100, timer = Some 2, stop = True, now = 200, timers = [],
             handles = 3, inflight = [], started = 1, trace = ?t\<rparr> :: nat pstate"
  have r: "run (pollEvery 100 :: nat pstate) (session 100 0 0 [1, 2, 3]) = Some ?s"
    by (simp add: session_def poller_defs)
  from restart_begins_fresh_session [OF r, of "[4, 5]"] obtain s' where
    s': "run ?s (session 100 (started ?s) (handles ?s) [4, 5]) = Some s'"
        "since ?s s' = session_trace (started ?s) (handles ?s) [4, 5]"
    by blast
  from s'(1) have 1: "run ?s (session 100 1 3 [4, 5]) = Some s'" by simp
  from s'(2) have 2: "since ?s s' = [Requested 1, Delivered 1 4, Scheduled 1 3,
                              Requested 1, Delivered 1 5, Scheduled 1 4]"
    by (simp add: session_trace_def)
  from r 1 2 show ?thesis by blast
qed

section \<open>Stopping twice\<close>

text \<open>
  C8. The stop function never fails and is idempotent: in every state in which the stop
  closure of a session exists, calling it succeeds, calling it a second time succeeds
  and leaves the state exactly as the first call left it, and when no timer has been
  set yet (\<open>timer\<close> still undefined) the call only sets the flag.
\<close>

theorem stop_idempotent_total:
  "i < started s \<Longrightarrow>
     run s [Stop i] = Some (stop_fn s) \<and>
     run s [Stop i, Stop i] = Some (stop_fn s) \<and>
     stop_fn (stop_fn s) = stop_fn s \<and>
     (timer s = None \<longrightarrow> stop_fn s = s\<lparr>stop := True\<rparr>)"
  by (cases "timer s") (simp_all add: stop_fn_def clearTimeout_def)

theorem stop_idempotent_total_witness:
  "(0::nat) < started (start (pollEvery 100 :: nat pstate)) \<and>
   timer (start (pollEvery 100 :: nat pstate)) = None \<and>
   run (start (pollEvery 100 :: nat pstate)) [Stop 0, Stop 0]
     = Some ((start (pollEvery 100)) \<lparr>stop := True\<rparr>)"
proof -
  let ?s = "start (pollEvery 100 :: nat pstate)"
  have h: "0 < started ?s"
    by (simp add: start_def pollEvery_def poll_def emit_def)
  have t: "timer ?s = None"
    by (simp add: start_def pollEvery_def poll_def emit_def)
  from stop_idempotent_total [OF h] t
  have "run ?s [Stop 0, Stop 0] = Some (?s\<lparr>stop := True\<rparr>)"
    by metis
  with h t show ?thesis by blast
qed


end
